theory Spec2Isabelle
  imports Complex_Main "HOL-Library.Char_ord" "HOL-Library.List_Lexorder"
begin

section \<open>Shared conventions\<close>

text \<open>
  The pipeline of \<^verbatim>\<open>problem3\<close> has two stages: \<^verbatim>\<open>processor/process.py\<close> (extraction) and
  \<^verbatim>\<open>analyzer/analyze.py\<close> (analysis). Python \<^verbatim>\<open>str\<close> values are modelled as \<^typ>\<open>string\<close>
  restricted to ASCII text: the character classes \<^verbatim>\<open>\w\<close> and \<^verbatim>\<open>\s\<close> and the methods
  \<^verbatim>\<open>lower\<close> and \<^verbatim>\<open>strip\<close> are given for code points below 128, and code points above
  are outside the model. Python's \<^verbatim>\<open>int / int\<close> (a float) is modelled by exact division
  in \<^typ>\<open>real\<close>; rounding is outside the model. Exceptions are values of type \<open>error\<close>.
\<close>

datatype error =
  NameError string
  | OSError string
  | JSONError string

subsection \<open>Character classes of the regular expressions\<close>

definition is_word :: "char \<Rightarrow> bool" where
  \<comment> \<open>\<^verbatim>\<open>\w\<close> on ASCII: letters, digits and the underscore\<close>
  "is_word c \<longleftrightarrow>
     c \<in> set ''abcdefghijklmnopqrstuvwxyzABCDEFGHIJKLMNOPQRSTUVWXYZ0123456789_''"

definition is_space :: "char \<Rightarrow> bool" where
  \<comment> \<open>\<^verbatim>\<open>\s\<close> and \<^verbatim>\<open>str.isspace\<close> on ASCII: 9 to 13, 28 to 32\<close>
  "is_space c \<longleftrightarrow>
     (let n = (of_char c :: nat) in (9 \<le> n \<and> n \<le> 13) \<or> (28 \<le> n \<and> n \<le> 32))"

definition lower_char :: "char \<Rightarrow> char" where
  "lower_char c =
     (if c \<in> set ''ABCDEFGHIJKLMNOPQRSTUVWXYZ'' then char_of (of_char c + (32::nat)) else c)"

definition lower :: "string \<Rightarrow> string" where
  \<comment> \<open>\<^verbatim>\<open>str.lower()\<close>\<close>
  "lower s = map lower_char s"

definition strip :: "string \<Rightarrow> string" where
  \<comment> \<open>\<^verbatim>\<open>str.strip()\<close>\<close>
  "strip s = rev (dropWhile is_space (rev (dropWhile is_space s)))"

function findall_words :: "string \<Rightarrow> string list" where
  \<comment> \<open>\<^verbatim>\<open>WORD_RE.findall(text)\<close> with \<^verbatim>\<open>WORD_RE = re.compile(r"\b\w+\b")\<close>:
      the maximal runs of word characters, left to right\<close>
  "findall_words [] = []"
| "findall_words (c # cs) =
     (if is_word c then (c # takeWhile is_word cs) # findall_words (dropWhile is_word cs)
      else findall_words cs)"
  by pat_completeness auto
termination
  by (relation "measure length") (auto simp: less_Suc_eq_le length_dropWhile_le)

subsection \<open>Waiting for a readiness marker\<close>

partial_function (option) wait_for :: "(nat \<Rightarrow> bool) \<Rightarrow> nat \<Rightarrow> nat option" where
  \<comment> \<open>\<^verbatim>\<open>while not os.path.exists(marker): print(...); time.sleep(2)\<close>: \<open>present k\<close> says
      whether the marker exists at the check number \<open>k\<close>; the result is the number of
      the check that found it, and the loop does not return when none does\<close>
  "wait_for present k = (if present k then Some k else wait_for present (Suc k))"

declare wait_for.simps [code]

section \<open>Analysis stage (\<^verbatim>\<open>analyzer/analyze.py\<close>)\<close>

subsection \<open>\<^verbatim>\<open>jaccard_similarity\<close>\<close>

definition jaccard_similarity :: "string list \<Rightarrow> string list \<Rightarrow> real" where
  "jaccard_similarity doc1_words doc2_words =
     (let set1 = set doc1_words;
          set2 = set doc2_words;
          intersection = set1 \<inter> set2;
          union = set1 \<union> set2
      in if union \<noteq> {} then real (card intersection) / real (card union) else 0)"

subsection \<open>\<^verbatim>\<open>ngrams\<close>\<close>

fun join :: "string \<Rightarrow> string list \<Rightarrow> string" where
  \<comment> \<open>\<^verbatim>\<open>sep.join(xs)\<close>\<close>
  "join sep [] = []"
| "join sep [x] = x"
| "join sep (x # y # ys) = x @ sep @ join sep (y # ys)"

definition ngrams :: "string list \<Rightarrow> nat \<Rightarrow> string list" where
  \<comment> \<open>\<^verbatim>\<open>[" ".join(tokens[i:i+n]) for i in range(len(tokens)-n+1)]\<close>; the range is empty
      when \<^verbatim>\<open>len(tokens)-n+1\<close> is not positive\<close>
  "ngrams tokens n =
     map (\<lambda>i. join '' '' (take n (drop i tokens))) [0 ..< length tokens + 1 - n]"

subsection \<open>\<^verbatim>\<open>collections.Counter\<close>\<close>

text \<open>
  A \<^verbatim>\<open>Counter\<close> is a dict, which keeps its keys in the order of their first insertion:
  an association list, a new key appended at the end, a known key updated in place.
  \<^verbatim>\<open>most_common(n)\<close> is \<^verbatim>\<open>heapq.nlargest(n, self.items(), key=itemgetter(1))\<close>, which
  the library documents as \<^verbatim>\<open>sorted(items, key=itemgetter(1), reverse=True)[:n]\<close>: a
  stable sort by descending count, so that items of equal count keep the order of the
  dict. \<^verbatim>\<open>elements()\<close> repeats each key as many times as its count, in dict order.
\<close>

type_synonym 'a counter = "('a \<times> nat) list"

fun counter_incr :: "'a \<Rightarrow> 'a counter \<Rightarrow> 'a counter" where
  "counter_incr x [] = [(x, 1)]"
| "counter_incr x ((k, n) # kns) =
     (if k = x then (k, Suc n) # kns else (k, n) # counter_incr x kns)"

definition Counter :: "'a list \<Rightarrow> 'a counter" where
  "Counter xs = foldl (\<lambda>c x. counter_incr x c) [] xs"

definition most_common :: "nat \<Rightarrow> 'a counter \<Rightarrow> ('a \<times> nat) list" where
  "most_common n c = take n (sort_key (\<lambda>kv. - int (snd kv)) c)"

definition elements :: "'a counter \<Rightarrow> 'a list" where
  "elements c = concat (map (\<lambda>(k, n). replicate n k) c)"

subsection \<open>The processed store as the analysis stage reads it\<close>

text \<open>
  A directory is an association list from file names to files. A file of the processed
  store either makes the loading code raise (\<^verbatim>\<open>open\<close>, \<^verbatim>\<open>json.load\<close>, \<^verbatim>\<open>data.get\<close> or
  \<^verbatim>\<open>findall\<close>: unreadable, not JSON, not an object, a text that is no string), or holds
  a JSON object, of which the stage reads the member \<^verbatim>\<open>"text"\<close> only.
\<close>

datatype pfile =
  Fails error
  | Object "string option"

type_synonym 'f dir = "(string \<times> 'f) list"

definition listdir :: "'f dir \<Rightarrow> string list" where
  "listdir d = map fst d"

definition endswith :: "string \<Rightarrow> string \<Rightarrow> bool" where
  "endswith s suffix \<longleftrightarrow>
     length suffix \<le> length s \<and> drop (length s - length suffix) s = suffix"

fun load_docs ::
  "pfile dir \<Rightarrow> string list \<Rightarrow> (string \<times> string list) list
     \<Rightarrow> error + (string \<times> string list) list" where
  \<comment> \<open>the loop of lines 41 to 47 over the sorted names, \<open>docs\<close> the list built so far\<close>
  "load_docs pdir [] docs = Inr docs"
| "load_docs pdir (fname # rest) docs =
     (if endswith fname ''.json'' then
        (case map_of pdir fname of
           None \<Rightarrow> Inl (OSError fname)
         | Some (Fails e) \<Rightarrow> Inl e
         | Some (Object data) \<Rightarrow>
             (let text = (case data of Some t \<Rightarrow> t | None \<Rightarrow> []);
                  toks = map lower (findall_words text)
              in load_docs pdir rest (docs @ [(fname, toks)])))
      else load_docs pdir rest docs)"

subsection \<open>\<^verbatim>\<open>main\<close> of the analysis stage\<close>

record word_entry =
  word :: string
  count :: nat
  frequency :: real

record sim_entry =
  doc1 :: string
  doc2 :: string
  similarity :: real

record readability_rec =
  avg_sentence_length :: real
  avg_word_length :: real
  complexity_score :: real

record report =
  processing_timestamp :: string
  documents_processed :: nat
  total_words :: nat
  unique_words :: nat
  top_100_words :: "word_entry list"
  document_similarity :: "sim_entry list"
  top_bigrams :: "(string \<times> nat) list"
  top_trigrams :: "(string \<times> nat) list"
  readability :: readability_rec

fun combinations2 :: "'a list \<Rightarrow> ('a \<times> 'a) list" where
  \<comment> \<open>\<^verbatim>\<open>itertools.combinations(xs, 2)\<close>\<close>
  "combinations2 [] = []"
| "combinations2 (x # xs) = map (Pair x) xs @ combinations2 xs"

definition jaccard :: "string list \<Rightarrow> string list \<Rightarrow> error + real" where
  \<comment> \<open>Line 58 calls \<^verbatim>\<open>jaccard(t1,t2)\<close>. The module binds \<^verbatim>\<open>jaccard_similarity\<close>, and no
      statement or import of it binds the name \<^verbatim>\<open>jaccard\<close>: evaluating the call raises
      \<^verbatim>\<open>NameError\<close>.\<close>
  "jaccard t1 t2 = Inl (NameError ''jaccard'')"

fun sims_loop ::
  "((string \<times> string list) \<times> (string \<times> string list)) list \<Rightarrow> sim_entry list
     \<Rightarrow> error + sim_entry list" where
  \<comment> \<open>the loop of lines 57 and 58, \<open>sims\<close> the list built so far\<close>
  "sims_loop [] sims = Inr sims"
| "sims_loop (((f1, t1), (f2, t2)) # pairs) sims =
     (case jaccard t1 t2 of
        Inl e \<Rightarrow> Inl e
      | Inr s \<Rightarrow> sims_loop pairs (sims @ [\<lparr>doc1 = f1, doc2 = f2, similarity = s\<rparr>]))"

definition corpus_tokens :: "(string \<times> string list) list \<Rightarrow> string list" where
  \<comment> \<open>\<^verbatim>\<open>w for _, t in docs for w in t\<close>\<close>
  "corpus_tokens docs = concat (map snd docs)"

definition corpus_ngrams :: "(string \<times> string list) list \<Rightarrow> nat \<Rightarrow> string list" where
  \<comment> \<open>\<^verbatim>\<open>b for _, t in docs for b in ngrams(t,n)\<close>\<close>
  "corpus_ngrams docs n = concat (map (\<lambda>(_, t). ngrams t n) docs)"

definition count_words :: "(string \<times> string list) list \<Rightarrow> nat" where
  \<comment> \<open>\<^verbatim>\<open>total_words = sum(len(t) for _, t in docs)\<close>\<close>
  "count_words docs = sum_list (map (\<lambda>(_, t). length t) docs)"

definition sentence_est :: "nat \<Rightarrow> nat" where
  \<comment> \<open>line 62\<close>
  "sentence_est n_total = (if n_total \<noteq> 0 then max 1 (n_total div 20) else 0)"

definition top100 :: "(string \<times> string list) list \<Rightarrow> word_entry list" where
  \<comment> \<open>lines 51, 53 and 54\<close>
  "top100 docs =
     (let n_total = count_words docs;
          freq = Counter (corpus_tokens docs)
      in map (\<lambda>(w, c). \<lparr>word = w, count = c,
                frequency = (if n_total \<noteq> 0 then real c / real n_total else 0)\<rparr>)
           (most_common 100 freq))"

definition readability_of :: "(string \<times> string list) list \<Rightarrow> readability_rec" where
  \<comment> \<open>lines 62 to 65\<close>
  "readability_of docs =
     (let n_total = count_words docs;
          freq = Counter (corpus_tokens docs);
          est = sentence_est n_total;
          avg_sentence_len = (if est \<noteq> 0 then real n_total / real est else 0);
          avg_word_len =
            (if n_total \<noteq> 0 then real (sum_list (map length (elements freq))) / real n_total
             else 0);
          complexity = avg_sentence_len * avg_word_len
      in \<lparr>avg_sentence_length = avg_sentence_len, avg_word_length = avg_word_len,
          complexity_score = complexity\<rparr>)"

definition analyze_docs :: "(string \<times> string list) list \<Rightarrow> string \<Rightarrow> error + report" where
  \<comment> \<open>lines 49 to 84 on the list \<open>docs\<close> that the loading loop has built: \<open>now\<close> is what
      \<^verbatim>\<open>utc()\<close> returns; the result is the report written to
      \<^verbatim>\<open>/shared/analysis/final_report.json\<close>, or the exception that ends the run\<close>
  "analyze_docs docs now =
     (let n_total = count_words docs;
          vocab = set (corpus_tokens docs)
      in case sims_loop (combinations2 docs) [] of
           Inl e \<Rightarrow> Inl e
         | Inr sims \<Rightarrow>
             Inr \<lparr>processing_timestamp = now,
                  documents_processed = length docs,
                  total_words = n_total,
                  unique_words = card vocab,
                  top_100_words = top100 docs,
                  document_similarity = sims,
                  top_bigrams = most_common 50 (Counter (corpus_ngrams docs 2)),
                  top_trigrams = most_common 50 (Counter (corpus_ngrams docs 3)),
                  readability = readability_of docs\<rparr>)"

definition analyze :: "pfile dir \<Rightarrow> string \<Rightarrow> error + report" where
  \<comment> \<open>lines 39 to 84: the loading loop over the sorted listing, then the analysis of
      the documents loaded\<close>
  "analyze pdir now =
     (case load_docs pdir (sort (listdir pdir)) [] of
        Inl e \<Rightarrow> Inl e
      | Inr docs \<Rightarrow> analyze_docs docs now)"

definition analyze_main ::
  "(nat \<Rightarrow> bool) \<Rightarrow> pfile dir \<Rightarrow> string \<Rightarrow> (error + report) option" where
  "analyze_main present pdir now =
     (case wait_for present 0 of
        None \<Rightarrow> None
      | Some k \<Rightarrow> Some (analyze pdir now))"

section \<open>Extraction stage (\<^verbatim>\<open>processor/process.py\<close>)\<close>

subsection \<open>The regular expressions of \<^verbatim>\<open>strip_html\<close>, as scanners\<close>

text \<open>
  \<^verbatim>\<open>re.sub\<close> and \<^verbatim>\<open>re.findall\<close> scan from left to right: at each position the pattern
  is tried, a match is consumed whole and the scan goes on behind it, otherwise the
  scan moves one character on. Each pattern of the module is written out as the
  function that decides a match at the head of the remaining input.
\<close>

definition ci_prefix :: "string \<Rightarrow> string \<Rightarrow> bool" where
  \<comment> \<open>the literal \<open>p\<close> (given in lower case) matches at the head of \<open>s\<close> under
      \<^verbatim>\<open>re.IGNORECASE\<close>\<close>
  "ci_prefix p s \<longleftrightarrow> length p \<le> length s \<and> lower (take (length p) s) = p"

fun find_ci :: "string \<Rightarrow> string \<Rightarrow> string option" where
  \<comment> \<open>what follows the leftmost occurrence of the literal \<open>p\<close> in \<open>s\<close>, if there is one\<close>
  "find_ci p [] = (if p = [] then Some [] else None)"
| "find_ci p (c # cs) =
     (if ci_prefix p (c # cs) then Some (drop (length p) (c # cs)) else find_ci p cs)"

definition match_block :: "string \<Rightarrow> string \<Rightarrow> string option" where
  \<comment> \<open>\<^verbatim>\<open><tag[^>]*>.*?</tag>\<close> with \<^verbatim>\<open>re.DOTALL | re.IGNORECASE\<close> at the head of \<open>s\<close>: the
      opening literal, everything up to the first \<^verbatim>\<open>>\<close>, then lazily up to the first
      closing literal; the result is what follows the match\<close>
  "match_block tag s =
     (if ci_prefix (''<'' @ tag) s then
        (case dropWhile (\<lambda>c. c \<noteq> CHR ''>'') (drop (Suc (length tag)) s) of
           [] \<Rightarrow> None
         | _ # body \<Rightarrow> find_ci (''</'' @ tag @ ''>'') body)
      else None)"

lemma find_ci_length: "find_ci p s = Some r \<Longrightarrow> length r \<le> length s"
  by (induction s) (auto split: if_splits)

lemma match_block_length: "match_block tag s = Some r \<Longrightarrow> length r < length s"
proof -
  assume m: "match_block tag s = Some r"
  then obtain c body where d: "dropWhile (\<lambda>c. c \<noteq> CHR ''>'') (drop (Suc (length tag)) s) = c # body"
    and f: "find_ci (''</'' @ tag @ ''>'') body = Some r"
    by (auto simp: match_block_def split: if_splits list.splits)
  have "length (c # body) \<le> length (drop (Suc (length tag)) s)"
    using length_dropWhile_le [of "\<lambda>c. c \<noteq> CHR ''>''" "drop (Suc (length tag)) s"] d by simp
  then have "length body < length s" by simp
  with find_ci_length [OF f] show ?thesis by simp
qed

function remove_blocks :: "string \<Rightarrow> string \<Rightarrow> string" where
  \<comment> \<open>\<^verbatim>\<open>re.sub(r'<tag[^>]*>.*?</tag>', '', s, flags=re.DOTALL | re.IGNORECASE)\<close>\<close>
  "remove_blocks tag [] = []"
| "remove_blocks tag (c # cs) =
     (case match_block tag (c # cs) of
        Some rest \<Rightarrow> remove_blocks tag rest
      | None \<Rightarrow> c # remove_blocks tag cs)"
  by pat_completeness auto
termination
  by (relation "measure (\<lambda>(tag, s). length s)") (auto dest: match_block_length)

definition attr_stop :: "char \<Rightarrow> bool" where
  \<comment> \<open>the characters excluded by \<^verbatim>\<open>[^'" >]\<close>\<close>
  "attr_stop c \<longleftrightarrow> c = CHR 0x27 \<or> c = CHR 0x22 \<or> c = CHR '' '' \<or> c = CHR ''>''"

definition skip_quote :: "string \<Rightarrow> string" where
  \<comment> \<open>\<^verbatim>\<open>['"]?\<close>: one quote is consumed when there is one\<close>
  "skip_quote s =
     (case s of [] \<Rightarrow> [] | q # t \<Rightarrow> if q = CHR 0x27 \<or> q = CHR 0x22 then t else s)"

function findall_attr :: "string \<Rightarrow> string \<Rightarrow> string list" where
  \<comment> \<open>\<^verbatim>\<open>re.findall(r'key[\'"]?([^\'" >]+)', s, flags=re.IGNORECASE)\<close> for the literal
      \<open>key\<close>, \<^verbatim>\<open>href=\<close> or \<^verbatim>\<open>src=\<close>: the group is the longest run of admitted characters
      behind the optional quote, and the match fails when that run is empty (without the
      quote the run would start at a quote, which is excluded)\<close>
  "findall_attr key [] = []"
| "findall_attr key (c # cs) =
     (if ci_prefix key (c # cs) then
        (let r = skip_quote (drop (length key) (c # cs));
             v = takeWhile (\<lambda>x. \<not> attr_stop x) r
         in if v = [] then findall_attr key cs
            else v # findall_attr key (dropWhile (\<lambda>x. \<not> attr_stop x) r))
      else findall_attr key cs)"
  by pat_completeness auto
termination
proof (relation "measure (\<lambda>(key, s). length s)", goal_cases)
  case 1
  show ?case by simp
next
  case (2 key c cs)
  show ?case by simp
next
  case (3 key c cs r v)
  have "length (skip_quote s) \<le> length s" for s
    by (simp add: skip_quote_def split: list.splits)
  from this [of "drop (length key) (c # cs)"] have "length r \<le> length (c # cs)"
    using 3 by simp
  moreover have "length (dropWhile (\<lambda>x. \<not> attr_stop x) r) < length r"
    using 3 takeWhile_dropWhile_id [of "\<lambda>x. \<not> attr_stop x" r]
    by (metis add_cancel_left_left length_0_conv length_append less_add_same_cancel2
        length_greater_0_conv)
  ultimately show ?case by simp
next
  case (4 key c cs)
  show ?case by simp
qed

function sub_tags :: "string \<Rightarrow> string" where
  \<comment> \<open>\<^verbatim>\<open>re.sub(r'<[^>]+>', ' ', s)\<close>: a \<^verbatim>\<open><\<close>, one or more characters other than \<^verbatim>\<open>>\<close>,
      and the \<^verbatim>\<open>>\<close> that ends them\<close>
  "sub_tags [] = []"
| "sub_tags (c # cs) =
     (if c = CHR ''<'' \<and> takeWhile (\<lambda>x. x \<noteq> CHR ''>'') cs \<noteq> []
          \<and> dropWhile (\<lambda>x. x \<noteq> CHR ''>'') cs \<noteq> []
      then CHR '' '' # sub_tags (tl (dropWhile (\<lambda>x. x \<noteq> CHR ''>'') cs))
      else c # sub_tags cs)"
  by pat_completeness auto
termination
proof (relation "measure length", goal_cases)
  case 1
  show ?case by simp
next
  case (2 c cs)
  have "length (tl (dropWhile (\<lambda>x. x \<noteq> CHR ''>'') cs)) \<le> length cs"
    using length_dropWhile_le [of "\<lambda>x. x \<noteq> CHR ''>''" cs] by simp
  then show ?case by simp
next
  case (3 c cs)
  show ?case by simp
qed

function sub_spaces :: "string \<Rightarrow> string" where
  \<comment> \<open>\<^verbatim>\<open>re.sub(r'\s+', ' ', s)\<close>\<close>
  "sub_spaces [] = []"
| "sub_spaces (c # cs) =
     (if is_space c then CHR '' '' # sub_spaces (dropWhile is_space cs)
      else c # sub_spaces cs)"
  by pat_completeness auto
termination
  by (relation "measure length") (auto simp: less_Suc_eq_le length_dropWhile_le)

definition strip_html :: "string \<Rightarrow> string \<times> string list \<times> string list" where
  "strip_html html_content =
     (let html1 = remove_blocks ''script'' html_content;
          html2 = remove_blocks ''style'' html1;
          links = findall_attr ''href='' html2;
          images = findall_attr ''src='' html2;
          text1 = sub_tags html2;
          text2 = strip (sub_spaces text1)
      in (text2, links, images))"

subsection \<open>The statistics of a document\<close>

definition is_terminator :: "char \<Rightarrow> bool" where
  \<comment> \<open>the class \<^verbatim>\<open>[.!?]\<close>\<close>
  "is_terminator c \<longleftrightarrow> c = CHR ''.'' \<or> c = CHR ''!'' \<or> c = CHR ''?''"

function split_sentences :: "string \<Rightarrow> string list" where
  \<comment> \<open>\<^verbatim>\<open>SENT_RE.split(text)\<close> with \<^verbatim>\<open>SENT_RE = re.compile(r"[.!?]+")\<close>: the pieces
      between the maximal runs of terminators, the empty ones at both ends included\<close>
  "split_sentences s =
     (let piece = takeWhile (\<lambda>c. \<not> is_terminator c) s;
          rest = dropWhile (\<lambda>c. \<not> is_terminator c) s
      in if rest = [] then [piece]
         else piece # split_sentences (dropWhile is_terminator rest))"
  by pat_completeness auto
termination
proof (relation "measure length", goal_cases)
  case 1
  show ?case by simp
next
  case (2 s piece rest)
  from 2 obtain a t where r: "dropWhile (\<lambda>c. \<not> is_terminator c) s = a # t"
    by (cases "dropWhile (\<lambda>c. \<not> is_terminator c) s") auto
  have a: "is_terminator a"
    using hd_dropWhile [of "\<lambda>c. \<not> is_terminator c" s] r by simp
  have "length (a # t) \<le> length s"
    using length_dropWhile_le [of "\<lambda>c. \<not> is_terminator c" s] r by simp
  moreover have "length (dropWhile is_terminator t) \<le> length t"
    by (rule length_dropWhile_le)
  ultimately show ?case using 2 r a by simp
qed

fun count_p_tags :: "string \<Rightarrow> nat" where
  \<comment> \<open>\<^verbatim>\<open>len(P_TAG_RE.findall(html))\<close> with \<^verbatim>\<open>P_TAG_RE = re.compile(r"<p\b", re.IGNORECASE)\<close>:
      \<^verbatim>\<open><p\<close> or \<^verbatim>\<open><P\<close> followed by no word character\<close>
  "count_p_tags (a # b # cs) =
     (if a = CHR ''<'' \<and> (b = CHR ''p'' \<or> b = CHR ''P'')
          \<and> (case cs of [] \<Rightarrow> True | c # _ \<Rightarrow> \<not> is_word c)
      then Suc (count_p_tags cs) else count_p_tags (b # cs))"
| "count_p_tags _ = 0"

record stats_rec =
  word_count :: nat
  sentence_count :: nat
  paragraph_count :: nat
  avg_word_length :: real

record processed_doc =
  source_file :: string
  doc_text :: string
  statistics :: stats_rec
  links :: "string list"
  images :: "string list"
  processed_at :: string

definition process_doc :: "string \<Rightarrow> string \<Rightarrow> string \<Rightarrow> processed_doc" where
  \<comment> \<open>lines 58 to 79 for the document \<open>fname\<close> with content \<open>html\<close>; \<open>now\<close> is what
      \<^verbatim>\<open>utc()\<close> returns\<close>
  "process_doc fname html now =
     (case strip_html html of
        (text, lnks, imgs) \<Rightarrow>
          (let words = findall_words text;
               sentences = map strip (filter (\<lambda>s. strip s \<noteq> []) (split_sentences text));
               para_count0 = count_p_tags html;
               para_count = (if para_count0 = 0 \<and> text \<noteq> [] then 1 else para_count0);
               stats = \<lparr>word_count = length words,
                        sentence_count = length sentences,
                        paragraph_count = para_count,
                        avg_word_length =
                          (if words \<noteq> [] then
                             real (sum_list (map length words)) / real (length words)
                           else 0)\<rparr>
           in \<lparr>source_file = fname, doc_text = text, statistics = stats,
               links = lnks, images = imgs, processed_at = now\<rparr>))"

subsection \<open>\<^verbatim>\<open>main\<close> of the extraction stage\<close>

text \<open>
  A file of the raw store either makes \<^verbatim>\<open>open\<close> or \<^verbatim>\<open>read\<close> raise, or gives its text
  (decoded with \<^verbatim>\<open>errors="ignore"\<close>, which never raises). The state of a run is what it
  has written so far: the processed store, the marker \<^verbatim>\<open>process_complete.json\<close>, the
  list \<^verbatim>\<open>processed\<close> of the program, and the trace of its effects in the order in
  which they happen: a wait for the upstream marker, the read of a raw document, the
  write of a record (its path and the record written), the write of the marker. A file
  counts as written when its \<^verbatim>\<open>with\<close> block is left, that is when the file is
  closed; the program never calls \<^verbatim>\<open>fsync\<close>.
\<close>

datatype event =
  Waiting
  | ReadRaw string
  | WriteRecord string processed_doc
  | WriteMarker

record marker =
  timestamp :: string
  files :: "string list"

record pstate =
  processed_store :: "processed_doc dir"
  status_store :: "marker option"
  processed :: "string list"
  trace :: "event list"

definition splitext_root :: "string \<Rightarrow> string" where
  \<comment> \<open>\<^verbatim>\<open>os.path.splitext(fname)[0]\<close> for a name without a directory separator: the name
      up to its last dot, and the whole name when it has no dot or only dots before the
      last one\<close>
  "splitext_root p =
     (let ext = takeWhile (\<lambda>c. c \<noteq> CHR ''.'') (rev p) in
      if length ext = length p then p
      else (let root = take (length p - length ext - 1) p in
            if list_all (\<lambda>c. c = CHR ''.'') root then p else root))"

definition out_name :: "string \<Rightarrow> string" where
  "out_name fname = ''/shared/processed/'' @ splitext_root fname @ ''.json''"

fun write_file :: "string \<Rightarrow> 'f \<Rightarrow> 'f dir \<Rightarrow> 'f dir" where
  \<comment> \<open>\<^verbatim>\<open>open(path, "w")\<close> and \<^verbatim>\<open>json.dump\<close>: the file is created or replaced\<close>
  "write_file path v [] = [(path, v)]"
| "write_file path v ((p, w) # d) =
     (if p = path then (p, v) # d else (p, w) # write_file path v d)"

fun process_loop ::
  "(error + string) dir \<Rightarrow> (nat \<Rightarrow> string) \<Rightarrow> string list \<Rightarrow> pstate
     \<Rightarrow> error option \<times> pstate" where
  \<comment> \<open>the loop of lines 52 to 85 over the sorted names; \<open>clock i\<close> is what call number
      \<open>i\<close> of \<^verbatim>\<open>utc()\<close> returns. An exception ends the loop and the run; the state it
      leaves is returned with it\<close>
  "process_loop raw clock [] st = (None, st)"
| "process_loop raw clock (fname # rest) st =
     (if \<not> endswith fname ''.html'' then process_loop raw clock rest st
      else
        (case map_of raw fname of
           None \<Rightarrow> (Some (OSError fname), st)
         | Some (Inl e) \<Rightarrow> (Some e, st)
         | Some (Inr html) \<Rightarrow>
             (let out = process_doc fname html (clock (length (processed st)))
              in process_loop raw clock rest
                   (st\<lparr>processed_store := write_file (out_name fname) out (processed_store st),
                       processed := processed st @ [out_name fname],
                       trace := trace st @ [ReadRaw fname, WriteRecord (out_name fname) out]\<rparr>))))"

definition process_main ::
  "(nat \<Rightarrow> bool) \<Rightarrow> (error + string) dir \<Rightarrow> (nat \<Rightarrow> string) \<Rightarrow> processed_doc dir
     \<Rightarrow> (error option \<times> pstate) option" where
  \<comment> \<open>\<open>present\<close> tells at which check \<^verbatim>\<open>fetch_complete.json\<close> exists, \<open>raw\<close> is the raw
      store when it is listed, \<open>pdir0\<close> what the processed store holds before the run\<close>
  "process_main present raw clock pdir0 =
     (case wait_for present 0 of
        None \<Rightarrow> None
      | Some k \<Rightarrow>
          Some
            (case process_loop raw clock (sort (listdir raw))
                    \<lparr>processed_store = pdir0, status_store = None, processed = [],
                     trace = replicate k Waiting\<rparr> of
               (Some e, st) \<Rightarrow> (Some e, st)
             | (None, st) \<Rightarrow>
                 (None,
                  st\<lparr>status_store :=
                       Some \<lparr>timestamp = clock (length (processed st)),
                             files = processed st\<rparr>,
                     trace := trace st @ [WriteMarker]\<rparr>)))"

section \<open>Notions used in the statements\<close>

definition first_index :: "'a list \<Rightarrow> 'a \<Rightarrow> nat" where
  \<comment> \<open>the position at which \<open>x\<close> occurs first in \<open>xs\<close>\<close>
  "first_index xs x = length (takeWhile (\<lambda>y. y \<noteq> x) xs)"

definition ranked :: "'a list \<Rightarrow> ('a \<times> nat) list \<Rightarrow> bool" where
  \<comment> \<open>descending count, and among equal counts the key that occurs first in the counted
      stream comes first\<close>
  "ranked stream table \<longleftrightarrow>
     sorted_wrt (\<lambda>a b. snd b < snd a
        \<or> (snd a = snd b \<and> first_index stream (fst a) < first_index stream (fst b))) table"

definition lex_ranked :: "(string \<times> nat) list \<Rightarrow> bool" where
  \<comment> \<open>descending count, and among equal counts ascending lexical order of the keys\<close>
  "lex_ranked table \<longleftrightarrow>
     sorted_wrt (\<lambda>a b. snd b < snd a \<or> (snd a = snd b \<and> fst a < fst b)) table"

definition entry_pairs :: "word_entry list \<Rightarrow> (string \<times> nat) list" where
  "entry_pairs es = map (\<lambda>e. (word e, count e)) es"

definition readable :: "(error + string) dir \<Rightarrow> string \<Rightarrow> bool" where
  \<comment> \<open>the raw store gives the text of the file \<open>fname\<close>\<close>
  "readable raw fname = (case map_of raw fname of Some (Inr _) \<Rightarrow> True | _ \<Rightarrow> False)"

definition html_names :: "'f dir \<Rightarrow> string list" where
  "html_names raw = filter (\<lambda>f. endswith f ''.html'') (sort (listdir raw))"

definition json_names :: "'f dir \<Rightarrow> string list" where
  "json_names pdir = filter (\<lambda>f. endswith f ''.json'') (sort (listdir pdir))"

definition only_named :: "string \<Rightarrow> 'f dir \<Rightarrow> 'f dir" where
  \<comment> \<open>the directory without the entries whose name does not end in \<open>suffix\<close>\<close>
  "only_named suffix d = filter (\<lambda>(name, _). endswith name suffix) d"

definition raw_text :: "(error + string) dir \<Rightarrow> string \<Rightarrow> string" where
  \<comment> \<open>the text that the raw store gives for the file \<open>fname\<close>\<close>
  "raw_text raw fname = (case map_of raw fname of Some (Inr html) \<Rightarrow> html | _ \<Rightarrow> [])"

definition written ::
  "(error + string) dir \<Rightarrow> (nat \<Rightarrow> string) \<Rightarrow> nat \<times> string \<Rightarrow> string \<times> processed_doc" where
  \<comment> \<open>the path and the whole record of the document \<open>fname\<close>, converted as number \<open>i\<close>
      of the run\<close>
  "written raw clock = (\<lambda>(i, fname).
     (out_name fname, process_doc fname (raw_text raw fname) (clock i)))"

definition doc_events ::
  "(error + string) dir \<Rightarrow> (nat \<Rightarrow> string) \<Rightarrow> nat \<times> string \<Rightarrow> event list" where
  \<comment> \<open>the effects of one iteration of the extraction loop: the document is read, then
      its record is written\<close>
  "doc_events raw clock = (\<lambda>(i, fname).
     [ReadRaw fname,
      WriteRecord (out_name fname) (process_doc fname (raw_text raw fname) (clock i))])"

fun reads :: "event list \<Rightarrow> string list" where
  \<comment> \<open>the raw documents read, in the order of the trace\<close>
  "reads [] = []"
| "reads (ReadRaw f # es) = f # reads es"
| "reads (_ # es) = reads es"


definition loadable :: "pfile dir \<Rightarrow> string \<Rightarrow> bool" where
  \<comment> \<open>the processed store gives a JSON object for the file \<open>fname\<close>\<close>
  "loadable pdir fname = (case map_of pdir fname of Some (Object _) \<Rightarrow> True | _ \<Rightarrow> False)"

definition load_error :: "pfile dir \<Rightarrow> string \<Rightarrow> error" where
  \<comment> \<open>the exception that loading the file \<open>fname\<close> of the processed store raises\<close>
  "load_error pdir fname = (case map_of pdir fname of Some (Fails e) \<Rightarrow> e | _ \<Rightarrow> OSError fname)"

definition doc_tokens :: "pfile dir \<Rightarrow> string \<Rightarrow> string list" where
  \<comment> \<open>the case-folded tokens of the text of the record \<open>fname\<close>\<close>
  "doc_tokens pdir fname =
     (case map_of pdir fname of
        Some (Object (Some t)) \<Rightarrow> map lower (findall_words t)
      | _ \<Rightarrow> [])"

definition loaded_docs :: "pfile dir \<Rightarrow> (string \<times> string list) list" where
  \<comment> \<open>the records of the processed store in ascending order of their names, each with
      its tokens\<close>
  "loaded_docs pdir = map (\<lambda>f. (f, doc_tokens pdir f)) (json_names pdir)"

definition example_html :: string where
  "example_html = ''<p>Hello world! Visit <a href=\"http://x.com\">here</a>.</p>''"

definition sample_store :: "pfile dir" where
  \<comment> \<open>a processed store with one record and one entry that is no record\<close>
  "sample_store = [(''a.json'', Object (Some ''b a b c'')), (''x.txt'', Fails (OSError ''x.txt''))]"

definition sample_docs :: "(string \<times> string list) list" where
  "sample_docs = [(''a.json'', [''b'', ''a'', ''b'', ''c''])]"

definition sample_report :: report where
  "sample_report =
     \<lparr>processing_timestamp = ''t'', documents_processed = 1, total_words = 4,
      unique_words = 3,
      top_100_words =
        [\<lparr>word = ''b'', count = 2, frequency = 1 / 2\<rparr>,
         \<lparr>word = ''a'', count = 1, frequency = 1 / 4\<rparr>,
         \<lparr>word = ''c'', count = 1, frequency = 1 / 4\<rparr>],
      document_similarity = [],
      top_bigrams = [(''b a'', 1), (''a b'', 1), (''b c'', 1)],
      top_trigrams = [(''b a b'', 1), (''a b c'', 1)],
      readability =
        \<lparr>avg_sentence_length = 4, avg_word_length = 1, complexity_score = 4\<rparr>\<rparr>"

definition failing_store :: "pfile dir" where
  \<comment> \<open>a processed store with two records that cannot be loaded, listed in descending
      order of their names\<close>
  "failing_store = [(''b.json'', Fails (JSONError ''b.json'')),
                    (''a.json'', Fails (OSError ''a.json''))]"

definition read_error :: "(error + string) dir \<Rightarrow> string \<Rightarrow> error" where
  \<comment> \<open>the exception that reading the file \<open>fname\<close> of the raw store raises\<close>
  "read_error raw fname = (case map_of raw fname of Some (Inl e) \<Rightarrow> e | _ \<Rightarrow> OSError fname)"

definition sample_raw :: "(error + string) dir" where
  "sample_raw = [(''b.html'', Inr ''<p>x</p>''), (''a.html'', Inr ''hi''), (''c.txt'', Inr ''hi'')]"

definition record_a :: processed_doc where
  "record_a =
     \<lparr>source_file = ''a.html'', doc_text = ''hi'',
      statistics = \<lparr>word_count = 1, sentence_count = 1, paragraph_count = 1,
                    avg_word_length = 2\<rparr>,
      links = [], images = [], processed_at = ''t0''\<rparr>"

definition record_b :: processed_doc where
  "record_b =
     \<lparr>source_file = ''b.html'', doc_text = ''x'',
      statistics = \<lparr>word_count = 1, sentence_count = 1, paragraph_count = 1,
                    avg_word_length = 1\<rparr>,
      links = [], images = [], processed_at = ''t1''\<rparr>"

definition sample_clock :: "nat \<Rightarrow> string" where
  "sample_clock i = (if i = 0 then ''t0'' else if i = 1 then ''t1'' else ''t2'')"

definition sample_state :: pstate where
  "sample_state =
     \<lparr>processed_store =
        [(''/shared/processed/a.json'', record_a), (''/shared/processed/b.json'', record_b)],
      status_store =
        Some \<lparr>timestamp = ''t2'',
              files = [''/shared/processed/a.json'', ''/shared/processed/b.json'']\<rparr>,
      processed = [''/shared/processed/a.json'', ''/shared/processed/b.json''],
      trace = [Waiting, ReadRaw ''a.html'', WriteRecord ''/shared/processed/a.json'' record_a,
               ReadRaw ''b.html'', WriteRecord ''/shared/processed/b.json'' record_b,
               WriteMarker]\<rparr>"



section \<open>Properties\<close>

subsection \<open>The wait loop\<close>

lemma wait_for_returns:
  "present k \<Longrightarrow> i \<le> k \<Longrightarrow> \<exists>j. wait_for present i = Some j"
proof (induction "k - i" arbitrary: i)
  case 0
  then have "i = k" by simp
  with 0 show ?case by (simp add: wait_for.simps)
next
  case (Suc d)
  show ?case
  proof (cases "present i")
    case True
    then show ?thesis by (simp add: wait_for.simps)
  next
    case False
    from Suc have "\<exists>j. wait_for present (Suc i) = Some j" by simp
    with False show ?thesis by (subst wait_for.simps) simp
  qed
qed

subsection \<open>Directories\<close>

lemma map_of_only_named:
  "map_of (only_named suffix d) f = (if endswith f suffix then map_of d f else None)"
  by (induction d) (auto simp: only_named_def)

lemma listdir_only_named:
  "listdir (only_named suffix d) = filter (\<lambda>f. endswith f suffix) (listdir d)"
  by (induction d) (auto simp: only_named_def listdir_def)

lemma sort_listdir_only_named:
  "sort (listdir (only_named suffix d)) = filter (\<lambda>f. endswith f suffix) (sort (listdir d))"
  by (simp add: listdir_only_named filter_sort)

subsection \<open>Loading the processed store\<close>

lemma load_docs_no_json:
  "list_all (\<lambda>f. \<not> endswith f ''.json'') names \<Longrightarrow> load_docs pdir names docs = Inr docs"
  by (induction names) simp_all

lemma load_docs_names:
  "load_docs pdir names docs = Inr docs'
   \<Longrightarrow> map fst docs' = map fst docs @ filter (\<lambda>f. endswith f ''.json'') names"
proof (induction names arbitrary: docs)
  case Nil
  then show ?case by simp
next
  case (Cons fname rest)
  show ?case
  proof (cases "endswith fname ''.json''")
    case False
    with Cons show ?thesis by simp
  next
    case True
    with Cons.prems obtain data where
      "load_docs pdir rest
         (docs @ [(fname, map lower (findall_words (case data of Some t \<Rightarrow> t | None \<Rightarrow> [])))])
       = Inr docs'"
      by (auto simp: Let_def split: option.splits pfile.splits)
    from Cons.IH [OF this] True show ?thesis by simp
  qed
qed

lemma load_docs_filter_names:
  "load_docs pdir (filter (\<lambda>f. endswith f ''.json'') names) docs = load_docs pdir names docs"
  by (induction names arbitrary: docs)
     (auto simp: Let_def split: option.splits pfile.splits)

lemma load_docs_only_named:
  "list_all (\<lambda>f. endswith f ''.json'') names
   \<Longrightarrow> load_docs (only_named ''.json'' pdir) names docs = load_docs pdir names docs"
  by (induction names arbitrary: docs)
     (auto simp: Let_def map_of_only_named split: option.splits pfile.splits)

lemma analyze_only_named: "analyze (only_named ''.json'' pdir) now = analyze pdir now"
proof -
  have "load_docs (only_named ''.json'' pdir) (sort (listdir (only_named ''.json'' pdir))) []
      = load_docs pdir (filter (\<lambda>f. endswith f ''.json'') (sort (listdir pdir))) []"
    by (simp add: sort_listdir_only_named load_docs_only_named list_all_iff)
  then show ?thesis
    by (simp add: analyze_def load_docs_filter_names)
qed

subsection \<open>The similarity loop\<close>

lemma sims_loop_Inr: "sims_loop pairs sims = Inr r \<longleftrightarrow> pairs = [] \<and> r = sims"
  by (cases pairs) (auto simp: jaccard_def)

lemma combinations2_Nil: "combinations2 xs = [] \<longleftrightarrow> length xs \<le> 1"
  by (induction xs) (auto simp: Suc_le_eq)

lemma analyze_Inr:
  assumes "analyze pdir now = Inr r"
  obtains docs where "load_docs pdir (sort (listdir pdir)) [] = Inr docs"
    and "length docs \<le> 1"
    and "r = \<lparr>processing_timestamp = now,
               documents_processed = length docs,
               total_words = count_words docs,
               unique_words = card (set (corpus_tokens docs)),
               top_100_words = top100 docs,
               document_similarity = [],
               top_bigrams = most_common 50 (Counter (corpus_ngrams docs 2)),
               top_trigrams = most_common 50 (Counter (corpus_ngrams docs 3)),
               readability = readability_of docs\<rparr>"
  using assms
  by (auto simp: analyze_def analyze_docs_def Let_def sims_loop_Inr combinations2_Nil
      split: sum.splits)

lemma analyze_many_docs:
  assumes "load_docs pdir (sort (listdir pdir)) [] = Inr docs" and "2 \<le> length docs"
  shows "analyze pdir now = Inl (NameError ''jaccard'')"
proof -
  from assms(2) have "combinations2 docs \<noteq> []" by (simp add: combinations2_Nil)
  then have "sims_loop (combinations2 docs) [] = Inl (NameError ''jaccard'')"
    by (cases "combinations2 docs") (auto simp: jaccard_def)
  with assms(1) show ?thesis by (simp add: analyze_def analyze_docs_def Let_def)
qed

subsection \<open>Counters\<close>

lemma Counter_snoc: "Counter (xs @ [x]) = counter_incr x (Counter xs)"
  by (simp add: Counter_def)

lemma keys_counter_incr:
  "map fst (counter_incr x c) = (if x \<in> fst ` set c then map fst c else map fst c @ [x])"
  by (induction x c rule: counter_incr.induct) (auto simp: image_iff)

lemma keys_Counter: "fst ` set (Counter xs) = set xs"
proof (induction xs rule: rev_induct)
  case Nil
  show ?case by (simp add: Counter_def)
next
  case (snoc x xs)
  have "fst ` set (Counter (xs @ [x])) = set (map fst (counter_incr x (Counter xs)))"
    by (simp add: Counter_snoc)
  also have "\<dots> = insert x (set xs)"
    using snoc by (simp add: keys_counter_incr insert_absorb)
  finally show ?case by simp
qed

lemma first_index_less: "x \<in> set xs \<Longrightarrow> first_index xs x < length xs"
  by (induction xs) (auto simp: first_index_def)

lemma first_index_snoc_old: "k \<in> set xs \<Longrightarrow> first_index (xs @ [x]) k = first_index xs k"
  by (induction xs) (auto simp: first_index_def)

lemma first_index_snoc_new: "x \<notin> set xs \<Longrightarrow> first_index (xs @ [x]) x = length xs"
  by (induction xs) (auto simp: first_index_def)

lemma Counter_first_occurrence_order:
  "sorted_wrt (\<lambda>a b. first_index xs a < first_index xs b) (map fst (Counter xs))"
proof (induction xs rule: rev_induct)
  case Nil
  show ?case by (simp add: Counter_def)
next
  case (snoc x xs)
  let ?ks = "map fst (Counter xs)"
  have ks: "set ?ks = set xs" using keys_Counter [of xs] by simp
  have old: "sorted_wrt (\<lambda>a b. first_index (xs @ [x]) a < first_index (xs @ [x]) b) ?ks"
    using snoc
    by (rule sorted_wrt_mono_rel [rotated]) (simp add: keys_Counter first_index_snoc_old)
  show ?case
  proof (cases "x \<in> set xs")
    case True
    then show ?thesis using old keys_Counter [of xs]
      by (simp add: Counter_snoc keys_counter_incr)
  next
    case False
    then have "map fst (Counter (xs @ [x])) = ?ks @ [x]"
      using keys_Counter [of xs] by (simp add: Counter_snoc keys_counter_incr)
    moreover have "first_index (xs @ [x]) k < first_index (xs @ [x]) x" if "k \<in> set ?ks" for k
    proof -
      from that have "k \<in> set xs" using ks by simp
      then show ?thesis
        using False by (simp add: first_index_snoc_old first_index_snoc_new first_index_less)
    qed
    ultimately show ?thesis using old by (simp add: sorted_wrt_append del: set_map)
  qed
qed

lemma insort_key_tie_order:
  fixes f :: "'a \<Rightarrow> int"
  assumes "sorted_wrt (\<lambda>a b. f a < f b \<or> (f a = f b \<and> R a b)) ys" and "\<forall>y\<in>set ys. R x y"
  shows "sorted_wrt (\<lambda>a b. f a < f b \<or> (f a = f b \<and> R a b)) (insort_key f x ys)"
  using assms
proof (induction ys)
  case Nil
  then show ?case by simp
next
  case (Cons y ys)
  show ?case
  proof (cases "f x \<le> f y")
    case True
    have "f x < f z \<or> (f x = f z \<and> R x z)" if "z \<in> set (y # ys)" for z
    proof -
      have "f y \<le> f z" using Cons.prems(1) that by auto
      with True have "f x \<le> f z" by simp
      moreover have "R x z" using Cons.prems(2) that by blast
      ultimately show ?thesis by auto
    qed
    with True Cons.prems(1) show ?thesis by simp
  next
    case False
    with Cons show ?thesis by (auto simp: set_insort_key)
  qed
qed

lemma sort_key_tie_order:
  fixes f :: "'a \<Rightarrow> int"
  assumes "sorted_wrt R xs"
  shows "sorted_wrt (\<lambda>a b. f a < f b \<or> (f a = f b \<and> R a b)) (sort_key f xs)"
  using assms
  by (induction xs) (simp_all add: insort_key_tie_order)

lemma most_common_ranked: "ranked xs (most_common n (Counter xs))"
proof -
  have "sorted_wrt (\<lambda>a b. first_index xs (fst a) < first_index xs (fst b)) (Counter xs)"
    using Counter_first_occurrence_order [of xs] by (simp add: sorted_wrt_map)
  then have "sorted_wrt (\<lambda>a b. - int (snd a) < - int (snd b) \<or>
      (- int (snd a) = - int (snd b) \<and> first_index xs (fst a) < first_index xs (fst b)))
      (sort_key (\<lambda>kv. - int (snd kv)) (Counter xs))"
    by (rule sort_key_tie_order)
  then have "sorted_wrt (\<lambda>a b. snd b < snd a \<or>
      (snd a = snd b \<and> first_index xs (fst a) < first_index xs (fst b)))
      (sort_key (\<lambda>kv. - int (snd kv)) (Counter xs))"
    by (rule sorted_wrt_mono_rel [rotated]) auto
  then show ?thesis
    by (simp add: ranked_def most_common_def sorted_wrt_take)
qed

lemma length_most_common: "length (most_common n c) \<le> n"
  by (simp add: most_common_def)

lemma entry_pairs_top100:
  "entry_pairs (top100 docs) = most_common 100 (Counter (corpus_tokens docs))"
  by (simp add: entry_pairs_def top100_def Let_def comp_def case_prod_unfold)

lemma sum_elements_counter_incr:
  fixes g :: "'a \<Rightarrow> nat"
  shows "sum_list (map g (elements (counter_incr x c))) = g x + sum_list (map g (elements c))"
  by (induction c) (auto simp: elements_def)

lemma sum_elements_Counter:
  fixes g :: "'a \<Rightarrow> nat"
  shows "sum_list (map g (elements (Counter xs))) = sum_list (map g xs)"
proof (induction xs rule: rev_induct)
  case Nil
  show ?case by (simp add: Counter_def elements_def)
next
  case (snoc x xs)
  then show ?case by (simp add: Counter_snoc sum_elements_counter_incr)
qed

subsection \<open>The loading loop in closed form\<close>

lemma load_docs_closed:
  "load_docs pdir names docs =
     (case dropWhile (loadable pdir) (filter (\<lambda>f. endswith f ''.json'') names) of
        [] \<Rightarrow> Inr (docs @ map (\<lambda>f. (f, doc_tokens pdir f))
                 (filter (\<lambda>f. endswith f ''.json'') names))
      | f # _ \<Rightarrow> Inl (load_error pdir f))"
proof (induction names arbitrary: docs)
  case Nil
  show ?case by simp
next
  case (Cons fname rest)
  show ?case
  proof (cases "endswith fname ''.json''")
    case False
    with Cons show ?thesis by (simp cong: list.case_cong)
  next
    case True
    show ?thesis
    proof (cases "map_of pdir fname")
      case None
      with True show ?thesis by (simp add: loadable_def load_error_def)
    next
      case (Some fl)
      show ?thesis
      proof (cases fl)
        case (Fails e)
        with Some True show ?thesis by (simp add: loadable_def load_error_def)
      next
        case (Object data)
        with Some True have l: "loadable pdir fname" by (simp add: loadable_def)
        from Object Some have t: "doc_tokens pdir fname
            = map lower (findall_words (case data of Some t \<Rightarrow> t | None \<Rightarrow> []))"
          by (cases data) (simp_all add: doc_tokens_def)
        from Object Some True have "load_docs pdir (fname # rest) docs
            = load_docs pdir rest (docs @ [(fname, doc_tokens pdir fname)])"
          by (simp add: Let_def t)
        also note Cons.IH
        finally show ?thesis using True l by (simp cong: list.case_cong)
      qed
    qed
  qed
qed

lemma analyze_closed:
  "analyze pdir now =
     (case dropWhile (loadable pdir) (json_names pdir) of
        [] \<Rightarrow> analyze_docs (loaded_docs pdir) now
      | f # _ \<Rightarrow> Inl (load_error pdir f))"
proof -
  have "load_docs pdir (sort (listdir pdir)) [] =
     (case dropWhile (loadable pdir) (json_names pdir) of
        [] \<Rightarrow> Inr (loaded_docs pdir)
      | f # _ \<Rightarrow> Inl (load_error pdir f))"
    unfolding json_names_def loaded_docs_def
    by (simp add: load_docs_closed cong: list.case_cong)
  then show ?thesis
    unfolding analyze_def
    by (cases "dropWhile (loadable pdir) (json_names pdir)") (simp_all only: list.case sum.case)
qed

subsection \<open>The extraction loop\<close>

lemma map_of_write_file: "map_of (write_file path v d) = (map_of d)(path \<mapsto> v)"
  by (induction path v d rule: write_file.induct) auto

lemma map_upd_add: "m(p \<mapsto> v) ++ n = m ++ ([p \<mapsto> v] ++ n)"
  by (rule ext) (simp add: map_add_def split: option.splits)

lemma reads_append: "reads (xs @ ys) = reads xs @ reads ys"
  by (induction xs rule: reads.induct) simp_all


lemma reads_doc_events: "reads (concat (map (doc_events raw clock) ifs)) = map snd ifs"
  by (induction ifs) (auto simp: doc_events_def)


lemma reads_Waiting: "reads (replicate k Waiting) = []"
  by (induction k) simp_all


lemma process_loop_closed:
  assumes "process_loop raw clock names st = (res, st')"
  shows "trace st' = trace st @ concat (map (doc_events raw clock)
            (enumerate (length (processed st))
              (takeWhile (readable raw) (filter (\<lambda>f. endswith f ''.html'') names))))"
    and "processed st' = processed st @ map out_name
            (takeWhile (readable raw) (filter (\<lambda>f. endswith f ''.html'') names))"
    and "status_store st' = status_store st"
    and "map_of (processed_store st') = map_of (processed_store st)
            ++ map_of (rev (map (written raw clock)
                 (enumerate (length (processed st))
                   (takeWhile (readable raw) (filter (\<lambda>f. endswith f ''.html'') names)))))"
    and "res = (case dropWhile (readable raw) (filter (\<lambda>f. endswith f ''.html'') names) of
                  [] \<Rightarrow> None | f # _ \<Rightarrow> Some (read_error raw f))"
  using assms
proof (induction names arbitrary: st)
  case Nil
  {
    case 1 then show ?case by simp
  next
    case 2 then show ?case by simp
  next
    case 3 then show ?case by simp
  next
    case 4 then show ?case by simp
  next
    case 5 then show ?case by auto
  }
next
  case (Cons fname rest)
  note IH = Cons.IH
  {
    fix st
    assume run: "process_loop raw clock (fname # rest) st = (res, st')"
    let ?names = "fname # rest"
    let ?done = "takeWhile (readable raw) (filter (\<lambda>f. endswith f ''.html'') ?names)"
    have "trace st' = trace st @ concat (map (doc_events raw clock)
              (enumerate (length (processed st)) ?done))
        \<and> processed st' = processed st @ map out_name ?done
        \<and> status_store st' = status_store st
        \<and> map_of (processed_store st') = map_of (processed_store st)
              ++ map_of (rev (map (written raw clock) (enumerate (length (processed st)) ?done)))
        \<and> res = (case dropWhile (readable raw) (filter (\<lambda>f. endswith f ''.html'') ?names) of
                    [] \<Rightarrow> None | f # _ \<Rightarrow> Some (read_error raw f))"
    proof (cases "endswith fname ''.html''")
      case False
      with run have "process_loop raw clock rest st = (res, st')" by simp
      from IH [OF this] False show ?thesis by simp
    next
      case True
      show ?thesis
      proof (cases "map_of raw fname")
        case None
        with True run show ?thesis by (auto simp: readable_def read_error_def)
      next
        case (Some fl)
        show ?thesis
        proof (cases fl)
          case (Inl e)
          with Some True run show ?thesis by (auto simp: readable_def read_error_def)
        next
          case (Inr html)
          let ?out = "process_doc fname html (clock (length (processed st)))"
          let ?st = "st\<lparr>processed_store := write_file (out_name fname) ?out (processed_store st),
              processed := processed st @ [out_name fname],
              trace := trace st @ [ReadRaw fname, WriteRecord (out_name fname) ?out]\<rparr>"
          from Inr Some True run
          have next_run: "process_loop raw clock rest ?st = (res, st')" by (simp add: Let_def)
          have r: "readable raw fname" and t: "raw_text raw fname = html"
            using Inr Some by (simp_all add: readable_def raw_text_def)
          let ?rest = "takeWhile (readable raw) (filter (\<lambda>f. endswith f ''.html'') rest)"
          have e1: "trace ?st @ concat (map (doc_events raw clock)
                (enumerate (length (processed ?st)) ?rest))
              = trace st @ concat (map (doc_events raw clock)
                (enumerate (length (processed st)) ?done))"
            using True r by (simp add: doc_events_def t)
          have e2: "processed ?st @ map out_name ?rest = processed st @ map out_name ?done"
            using True r by simp
          have e3: "status_store ?st = status_store st" by simp
          let ?later = "map_of (rev (map (written raw clock)
                (enumerate (Suc (length (processed st))) ?rest)))"
          have "map_of (processed_store ?st) ++ map_of (rev (map (written raw clock)
                (enumerate (length (processed ?st)) ?rest)))
              = (map_of (processed_store st))(out_name fname \<mapsto> ?out) ++ ?later"
            by (simp add: map_of_write_file)
          also have "\<dots> = map_of (processed_store st) ++ ([out_name fname \<mapsto> ?out] ++ ?later)"
            by (rule map_upd_add)
          also have "\<dots> = map_of (processed_store st) ++ map_of (rev (map (written raw clock)
                (enumerate (length (processed st)) ?done)))"
            using True r by (simp add: written_def t)
          finally have e4: "map_of (processed_store ?st) ++ map_of (rev (map (written raw clock)
                (enumerate (length (processed ?st)) ?rest)))
              = map_of (processed_store st) ++ map_of (rev (map (written raw clock)
                (enumerate (length (processed st)) ?done)))" .
          have e5: "dropWhile (readable raw) (filter (\<lambda>f. endswith f ''.html'') rest)
              = dropWhile (readable raw) (filter (\<lambda>f. endswith f ''.html'') ?names)"
            using True r by simp
          note ih = IH [OF next_run]
          from trans [OF ih(1) e1] trans [OF ih(2) e2] trans [OF ih(3) e3] trans [OF ih(4) e4]
            ih(5) [unfolded e5]
          show ?thesis by (intro conjI)
        qed
      qed
    qed
  }
  note step = this
  {
    case 1 from step [OF 1] show ?case by blast
  next
    case 2 from step [OF 2] show ?case by blast
  next
    case 3 from step [OF 3] show ?case by blast
  next
    case 4 from step [OF 4] show ?case by blast
  next
    case 5 from step [OF 5] show ?case by blast
  }
qed

lemma process_loop_filter_names:
  "process_loop raw clock (filter (\<lambda>f. endswith f ''.html'') names) st
     = process_loop raw clock names st"
  by (induction names arbitrary: st)
     (auto simp: Let_def split: option.splits sum.splits)

lemma process_loop_only_named:
  "list_all (\<lambda>f. endswith f ''.html'') names
   \<Longrightarrow> process_loop (only_named ''.html'' raw) clock names st = process_loop raw clock names st"
  by (induction names arbitrary: st)
     (auto simp: Let_def map_of_only_named split: option.splits sum.splits)

lemma process_main_only_named:
  "process_main present (only_named ''.html'' raw) clock pdir0 = process_main present raw clock pdir0"
proof -
  have eq: "process_loop (only_named ''.html'' raw) clock (sort (listdir (only_named ''.html'' raw))) st
      = process_loop raw clock (sort (listdir raw)) st" for st
  proof -
    have "process_loop (only_named ''.html'' raw) clock
            (sort (listdir (only_named ''.html'' raw))) st
        = process_loop (only_named ''.html'' raw) clock
            (filter (\<lambda>f. endswith f ''.html'') (sort (listdir raw))) st"
      by (simp only: sort_listdir_only_named)
    also have "\<dots> = process_loop raw clock
            (filter (\<lambda>f. endswith f ''.html'') (sort (listdir raw))) st"
      by (rule process_loop_only_named) (simp add: list_all_iff)
    also have "\<dots> = process_loop raw clock (sort (listdir raw)) st"
      by (rule process_loop_filter_names)
    finally show ?thesis .
  qed
  show ?thesis by (simp only: process_main_def eq)
qed


lemma out_name_not_injective: "out_name ''.html'' = out_name ''.html.html''"
  by code_simp

lemma dropWhile_case_None:
  "(case dropWhile P xs of [] \<Rightarrow> None | f # _ \<Rightarrow> Some (g f)) = None \<longleftrightarrow> list_all P xs"
  "None = (case dropWhile P xs of [] \<Rightarrow> None | f # _ \<Rightarrow> Some (g f)) \<longleftrightarrow> list_all P xs"
  by (induction xs) auto

lemma process_main_closed:
  assumes "present k"
  shows "\<exists>res st n. process_main present raw clock pdir0 = Some (res, st)
     \<and> trace st = replicate n Waiting
           @ concat (map (doc_events raw clock)
               (enumerate 0 (takeWhile (readable raw) (html_names raw))))
           @ (if res = None then [WriteMarker] else [])
     \<and> processed st = map out_name (takeWhile (readable raw) (html_names raw))
     \<and> res = (case dropWhile (readable raw) (html_names raw) of
                [] \<Rightarrow> None | f # _ \<Rightarrow> Some (read_error raw f))
     \<and> status_store st =
           (if res = None then
              Some \<lparr>timestamp = clock (length (html_names raw)),
                    files = map out_name (html_names raw)\<rparr>
            else None)
     \<and> map_of (processed_store st) = map_of pdir0
           ++ map_of (rev (map (written raw clock)
                (enumerate 0 (takeWhile (readable raw) (html_names raw)))))"
proof -
  from assms obtain n where n: "wait_for present 0 = Some n"
    using wait_for_returns [of present k 0] by auto
  let ?st0 = "\<lparr>processed_store = pdir0, status_store = None, processed = [],
               trace = replicate n Waiting\<rparr>"
  let ?done = "takeWhile (readable raw) (html_names raw)"
  obtain res' st' where loop: "process_loop raw clock (sort (listdir raw)) ?st0 = (res', st')"
    by (cases "process_loop raw clock (sort (listdir raw)) ?st0") auto
  note c = process_loop_closed [OF loop, folded html_names_def]
  have c1: "trace st' = replicate n Waiting @ concat (map (doc_events raw clock) (enumerate 0 ?done))"
    using c(1) by simp
  have c2: "processed st' = map out_name ?done" using c(2) by simp
  have c3: "status_store st' = None" using c(3) by simp
  have c4: "map_of (processed_store st') = map_of pdir0
      ++ map_of (rev (map (written raw clock) (enumerate 0 ?done)))"
    using c(4) by simp
  note c5 = c(5)
  show ?thesis
  proof (cases res')
    case None
    have all: "?done = html_names raw"
      using c5 None by (simp add: dropWhile_case_None takeWhile_eq_all_conv list_all_iff)
    let ?st = "st'\<lparr>status_store := Some \<lparr>timestamp = clock (length (processed st')),
                                         files = processed st'\<rparr>,
                  trace := trace st' @ [WriteMarker]\<rparr>"
    have run: "process_main present raw clock pdir0 = Some (None, ?st)"
      using n loop None by (simp add: process_main_def)
    have t: "trace ?st = replicate n Waiting
           @ concat (map (doc_events raw clock) (enumerate 0 ?done))
           @ (if (None :: error option) = None then [WriteMarker] else [])"
      using c1 by simp
    have p: "processed ?st = map out_name ?done" using c2 by simp
    have r: "(None :: error option) = (case dropWhile (readable raw) (html_names raw) of
                [] \<Rightarrow> None | f # _ \<Rightarrow> Some (read_error raw f))"
      using c5 None by simp
    have s: "status_store ?st =
           (if (None :: error option) = None then
              Some \<lparr>timestamp = clock (length (html_names raw)),
                    files = map out_name (html_names raw)\<rparr>
            else None)"
      using c2 all by simp
    have m: "map_of (processed_store ?st) = map_of pdir0
           ++ map_of (rev (map (written raw clock) (enumerate 0 ?done)))"
      using c4 by simp
    from run t p r s m show ?thesis by blast
  next
    case (Some e)
    have run: "process_main present raw clock pdir0 = Some (Some e, st')"
      using n loop Some by (simp add: process_main_def)
    have t: "trace st' = replicate n Waiting
           @ concat (map (doc_events raw clock) (enumerate 0 ?done))
           @ (if Some e = None then [WriteMarker] else [])"
      using c1 by simp
    have r: "Some e = (case dropWhile (readable raw) (html_names raw) of
                [] \<Rightarrow> None | f # _ \<Rightarrow> Some (read_error raw f))"
      using c5 Some by simp
    have s: "status_store st' =
           (if Some e = None then
              Some \<lparr>timestamp = clock (length (html_names raw)),
                    files = map out_name (html_names raw)\<rparr>
            else None)"
      using c3 by simp
    from run t c2 r s c4 show ?thesis by blast
  qed
qed


subsection \<open>The claims\<close>

text \<open>
  Claim C5. The similarity function returns 1.0 on two copies of a non-empty token
  collection, 0.0 on two empty ones, and the same value when its arguments are swapped.
\<close>

theorem jaccard_similarity_laws:
  "(A \<noteq> [] \<longrightarrow> jaccard_similarity A A = 1)
   \<and> jaccard_similarity [] [] = 0
   \<and> jaccard_similarity A B = jaccard_similarity B A"
proof (intro conjI impI)
  assume "A \<noteq> []"
  then have "set A \<noteq> {}" by simp
  moreover have "finite (set A)" by simp
  ultimately have "card (set A) \<noteq> 0" by (simp del: set_empty)
  then show "jaccard_similarity A A = 1"
    using \<open>set A \<noteq> {}\<close> by (simp add: jaccard_similarity_def del: set_empty)
next
  show "jaccard_similarity [] [] = 0"
    by (simp add: jaccard_similarity_def)
next
  show "jaccard_similarity A B = jaccard_similarity B A"
    by (auto simp: jaccard_similarity_def Let_def Int_commute Un_commute)
qed

theorem jaccard_similarity_laws_witness:
  "[''a'', ''b''] \<noteq> ([] :: string list)
   \<and> jaccard_similarity [''a'', ''b''] [''a'', ''b''] = 1
   \<and> jaccard_similarity [''a'', ''b'', ''c''] [''b'', ''c'', ''d'']
       = jaccard_similarity [''b'', ''c'', ''d''] [''a'', ''b'', ''c'']"
  using jaccard_similarity_laws [of "[''a'', ''b'']" "[''a'', ''b'']"]
    jaccard_similarity_laws [of "[''a'', ''b'', ''c'']" "[''b'', ''c'', ''d'']"]
  by simp

lemma sample_store_docs:
  "load_docs sample_store (sort (listdir sample_store)) [] = Inr sample_docs"
  unfolding sample_store_def sample_docs_def by code_simp

lemma sample_store_report: "analyze sample_store ''t'' = Inr sample_report"
  unfolding sample_store_def sample_report_def by code_simp

text \<open>
  Claim C1. For every processed corpus the analysis stage computes the Jaccard index of
  every pair of distinct documents and records it in \<^verbatim>\<open>document_similarity\<close>. On a store
  of two records with the token sets \<open>{a, b, c}\<close> and \<open>{b, c, d}\<close> the run ends with a
  \<^verbatim>\<open>NameError\<close> at line 58 and writes no report, although \<^verbatim>\<open>jaccard_similarity\<close> gives
  0.5 on these token lists.
\<close>

theorem similarity_of_two_documents_raises:
  "analyze [(''a.json'', Object (Some ''a b c'')), (''b.json'', Object (Some ''b c d''))] ''t''
     = Inl (NameError ''jaccard'')
   \<and> jaccard_similarity [''a'', ''b'', ''c''] [''b'', ''c'', ''d''] = 1 / 2"
  by code_simp

text \<open>
  Claim C3, as stated: the three tables are ordered by descending count and, among equal
  counts, by ascending lexical value of the key. The report of a store whose only
  document has the text \<^verbatim>\<open>b a\<close> lists \<^verbatim>\<open>b\<close> before \<^verbatim>\<open>a\<close>, both with count 1.
\<close>

theorem lexical_tie_break_counterexample:
  "(case analyze [(''a.json'', Object (Some ''b a''))] ''t'' of
      Inl e \<Rightarrow> False
    | Inr r \<Rightarrow> entry_pairs (top_100_words r) = [(''b'', 1), (''a'', 1)]
        \<and> \<not> lex_ranked (entry_pairs (top_100_words r)))"
  by code_simp

text \<open>
  Claim C3, amended. In every report the word table has at most 100 entries and the
  bigram and trigram tables at most 50 each, and each table is ordered by descending
  count, entries of equal count standing in the order in which their keys occur first
  in the counted stream (the tokens, bigrams or trigrams of the documents in loading
  order).
\<close>

theorem ranking_tables:
  assumes "analyze pdir now = Inr r"
    and "load_docs pdir (sort (listdir pdir)) [] = Inr docs"
  shows "length (top_100_words r) \<le> 100
     \<and> length (top_bigrams r) \<le> 50
     \<and> length (top_trigrams r) \<le> 50
     \<and> ranked (corpus_tokens docs) (entry_pairs (top_100_words r))
     \<and> ranked (corpus_ngrams docs 2) (top_bigrams r)
     \<and> ranked (corpus_ngrams docs 3) (top_trigrams r)"
proof -
  from assms have r: "top_100_words r = top100 docs"
    "top_bigrams r = most_common 50 (Counter (corpus_ngrams docs 2))"
    "top_trigrams r = most_common 50 (Counter (corpus_ngrams docs 3))"
    by (auto elim!: analyze_Inr)
  have "length (entry_pairs (top100 docs)) \<le> 100"
    unfolding entry_pairs_top100 by (rule length_most_common)
  then have "length (top100 docs) \<le> 100" by (simp add: entry_pairs_def)
  then show ?thesis
    by (simp add: r entry_pairs_top100 length_most_common most_common_ranked)
qed

theorem ranking_tables_witness:
  "analyze sample_store ''t'' = Inr sample_report
   \<and> load_docs sample_store (sort (listdir sample_store)) [] = Inr sample_docs
   \<and> length (top_100_words sample_report) \<le> 100
   \<and> length (top_bigrams sample_report) \<le> 50
   \<and> length (top_trigrams sample_report) \<le> 50
   \<and> ranked (corpus_tokens sample_docs) (entry_pairs (top_100_words sample_report))
   \<and> ranked (corpus_ngrams sample_docs 2) (top_bigrams sample_report)
   \<and> ranked (corpus_ngrams sample_docs 3) (top_trigrams sample_report)"
  using ranking_tables [OF sample_store_report sample_store_docs]
    sample_store_report sample_store_docs
  by blast

text \<open>
  Claim C4. Every derived ratio of the pipeline is 0.0 when its denominator is zero,
  instead of failing. On a store of two records with empty texts the token sets of the
  pair are empty, and the run ends with a \<^verbatim>\<open>NameError\<close> at line 58 instead of recording
  the similarity 0.0 that \<^verbatim>\<open>jaccard_similarity\<close> gives.
\<close>

theorem similarity_of_empty_documents_raises:
  "analyze [(''a.json'', Object (Some [])), (''b.json'', Object None)] ''t''
     = Inl (NameError ''jaccard'')
   \<and> jaccard_similarity [] [] = 0"
  by code_simp

text \<open>
  Claim C6. When the marker is found and the processed store holds no record, the
  analysis stage returns without an exception, and its report has no words, empty
  tables, an empty similarity list and readability fields 0.0.
\<close>

theorem zero_documents_report:
  assumes "present k" and "list_all (\<lambda>f. \<not> endswith f ''.json'') (listdir pdir)"
  shows "analyze_main present pdir now =
     Some (Inr \<lparr>processing_timestamp = now, documents_processed = 0, total_words = 0,
                unique_words = 0, top_100_words = [], document_similarity = [],
                top_bigrams = [], top_trigrams = [],
                readability = \<lparr>avg_sentence_length = 0, avg_word_length = 0,
                                complexity_score = 0\<rparr>\<rparr>)"
proof -
  from assms(1) obtain j where "wait_for present 0 = Some j"
    using wait_for_returns [of present k 0] by auto
  moreover from assms(2) have "load_docs pdir (sort (listdir pdir)) [] = Inr []"
    by (intro load_docs_no_json) (simp add: list_all_iff)
  then have "analyze pdir now =
     Inr \<lparr>processing_timestamp = now, documents_processed = 0, total_words = 0,
          unique_words = 0, top_100_words = [], document_similarity = [],
          top_bigrams = [], top_trigrams = [],
          readability = \<lparr>avg_sentence_length = 0, avg_word_length = 0,
                          complexity_score = 0\<rparr>\<rparr>"
    by (simp add: analyze_def analyze_docs_def count_words_def corpus_tokens_def
        corpus_ngrams_def top100_def readability_of_def Counter_def most_common_def
        sentence_est_def elements_def)
  ultimately show ?thesis
    by (simp add: analyze_main_def)
qed

theorem zero_documents_report_witness:
  "analyze_main (\<lambda>k. 2 \<le> k) [(''notes.txt'', Fails (OSError ''notes.txt''))] ''t'' =
     Some (Inr \<lparr>processing_timestamp = ''t'', documents_processed = 0, total_words = 0,
                unique_words = 0, top_100_words = [], document_similarity = [],
                top_bigrams = [], top_trigrams = [],
                readability = \<lparr>avg_sentence_length = 0, avg_word_length = 0,
                                complexity_score = 0\<rparr>\<rparr>)"
  using zero_documents_report [of "\<lambda>k. 2 \<le> k" 2
      "[(''notes.txt'', Fails (OSError ''notes.txt''))]" "''t''"]
  by (simp add: listdir_def endswith_def)

text \<open>
  Claim C9. With \<open>n\<close> the total number of words: when \<open>n > 0\<close> the estimated sentence
  count is \<open>max 1 (n div 20)\<close>, the average sentence length is \<open>n\<close> divided by that
  estimate, the average word length is the sum of the lengths of all token occurrences
  divided by \<open>n\<close>, and the complexity score is the product of the two averages; when
  \<open>n = 0\<close> the estimate is 0 and the average sentence length 0.0. These are the
  readability fields of every report the stage writes.
\<close>

theorem readability_metrics:
  "count_words docs = length (corpus_tokens docs)
   \<and> (0 < count_words docs \<longrightarrow>
        sentence_est (count_words docs) = max 1 (count_words docs div 20)
      \<and> avg_sentence_length (readability_of docs)
          = real (count_words docs) / real (sentence_est (count_words docs))
      \<and> readability_rec.avg_word_length (readability_of docs)
          = real (sum_list (map length (corpus_tokens docs))) / real (count_words docs)
      \<and> complexity_score (readability_of docs)
          = avg_sentence_length (readability_of docs)
            * readability_rec.avg_word_length (readability_of docs))
   \<and> (count_words docs = 0 \<longrightarrow>
        sentence_est (count_words docs) = 0
      \<and> avg_sentence_length (readability_of docs) = 0)
   \<and> (analyze pdir now = Inr r \<longrightarrow> load_docs pdir (sort (listdir pdir)) [] = Inr docs \<longrightarrow>
        total_words r = count_words docs \<and> readability r = readability_of docs)"
proof (intro conjI impI)
  show "count_words docs = length (corpus_tokens docs)"
    by (induction docs) (auto simp: count_words_def corpus_tokens_def)
next
  assume "0 < count_words docs"
  then show "sentence_est (count_words docs) = max 1 (count_words docs div 20)"
    by (simp add: sentence_est_def)
next
  assume n: "0 < count_words docs"
  then have "sentence_est (count_words docs) \<noteq> 0" by (simp add: sentence_est_def)
  then show "avg_sentence_length (readability_of docs)
      = real (count_words docs) / real (sentence_est (count_words docs))"
    by (simp add: readability_of_def Let_def)
next
  assume "0 < count_words docs"
  then show "readability_rec.avg_word_length (readability_of docs)
      = real (sum_list (map length (corpus_tokens docs))) / real (count_words docs)"
    by (simp add: readability_of_def Let_def sum_elements_Counter)
next
  show "complexity_score (readability_of docs)
      = avg_sentence_length (readability_of docs)
        * readability_rec.avg_word_length (readability_of docs)"
    by (simp add: readability_of_def Let_def)
next
  assume "count_words docs = 0"
  then show "sentence_est (count_words docs) = 0" by (simp add: sentence_est_def)
next
  assume "count_words docs = 0"
  then show "avg_sentence_length (readability_of docs) = 0"
    by (simp add: readability_of_def Let_def sentence_est_def)
next
  assume "analyze pdir now = Inr r" and "load_docs pdir (sort (listdir pdir)) [] = Inr docs"
  then show "total_words r = count_words docs" by (auto elim!: analyze_Inr)
next
  assume "analyze pdir now = Inr r" and "load_docs pdir (sort (listdir pdir)) [] = Inr docs"
  then show "readability r = readability_of docs" by (auto elim!: analyze_Inr)
qed

theorem readability_metrics_witness:
  "0 < count_words sample_docs
   \<and> analyze sample_store ''t'' = Inr sample_report
   \<and> load_docs sample_store (sort (listdir sample_store)) [] = Inr sample_docs
   \<and> sentence_est (count_words sample_docs) = max 1 (count_words sample_docs div 20)
   \<and> avg_sentence_length (readability_of sample_docs)
       = real (count_words sample_docs) / real (sentence_est (count_words sample_docs))
   \<and> readability_rec.avg_word_length (readability_of sample_docs)
       = real (sum_list (map length (corpus_tokens sample_docs))) / real (count_words sample_docs)
   \<and> complexity_score (readability_of sample_docs)
       = avg_sentence_length (readability_of sample_docs)
         * readability_rec.avg_word_length (readability_of sample_docs)
   \<and> total_words sample_report = count_words sample_docs
   \<and> readability sample_report = readability_of sample_docs
   \<and> count_words [] = 0
   \<and> sentence_est (count_words []) = 0
   \<and> avg_sentence_length (readability_of []) = 0"
proof -
  have pos: "0 < count_words sample_docs"
    by (simp add: count_words_def sample_docs_def)
  have zero: "count_words [] = 0"
    by (simp add: count_words_def)
  from readability_metrics [of sample_docs sample_store "''t''" sample_report]
    readability_metrics [of "[]" sample_store "''t''" sample_report]
    pos zero sample_store_report sample_store_docs
  show ?thesis by blast
qed

lemma sample_run:
  "process_main (\<lambda>k. 1 \<le> k) sample_raw sample_clock [] = Some (None, sample_state)"
  unfolding sample_raw_def sample_state_def record_a_def record_b_def by code_simp


lemma example_strip_html:
  "strip_html example_html = (''Hello world! Visit here .'', [''http://x.com''], [])"
  unfolding example_html_def by code_simp

lemma example_words:
  "findall_words ''Hello world! Visit here .'' = [''Hello'', ''world'', ''Visit'', ''here'']"
  by code_simp

lemma example_sentences:
  "map strip (filter (\<lambda>s. strip s \<noteq> []) (split_sentences ''Hello world! Visit here .''))
     = [''Hello world'', ''Visit here'']"
  by code_simp

lemma example_paragraphs: "count_p_tags example_html = 1"
  unfolding example_html_def by code_simp

text \<open>
  Claim C7. For the document \<^verbatim>\<open><p>Hello world! Visit <a href="http://x.com">here</a>.</p>\<close>
  the extraction gives the text \<^verbatim>\<open>Hello world! Visit here .\<close>, the links
  \<^verbatim>\<open>["http://x.com"]\<close>, 4 words, 2 sentences and 1 paragraph.
\<close>

theorem end_to_end_example:
  "doc_text (process_doc fname example_html now) = ''Hello world! Visit here .''
   \<and> links (process_doc fname example_html now) = [''http://x.com'']
   \<and> word_count (statistics (process_doc fname example_html now)) = 4
   \<and> sentence_count (statistics (process_doc fname example_html now)) = 2
   \<and> paragraph_count (statistics (process_doc fname example_html now)) = 1"
  unfolding process_doc_def example_strip_html prod.case Let_def example_words
    example_sentences example_paragraphs
  by simp






text \<open>
  Claim C10. The extraction stage reads the entries of the raw store whose name ends in
  \<^verbatim>\<open>.html\<close> and the analysis stage loads the entries of the processed store whose name
  ends in \<^verbatim>\<open>.json\<close>, both in ascending order of the names; any other entry has no
  effect at all: a run on the store without these entries has the same result, the same
  records and the same trace. For the extraction stage the documents read are, in this
  order, the matching names in ascending order up to the first that cannot be read,
  whose exception ends the run. For the analysis stage the run is the analysis of the
  records in ascending order of their names, unless a record cannot be loaded: then it
  ends with the exception of the first such record in ascending order.
\<close>

theorem only_matching_entries_in_sorted_order:
  "process_main present raw clock pdir0
     = process_main present (only_named ''.html'' raw) clock pdir0
   \<and> analyze_main present pdir now = analyze_main present (only_named ''.json'' pdir) now
   \<and> (present k \<longrightarrow>
        (\<exists>res st. process_main present raw clock pdir0 = Some (res, st)
          \<and> reads (trace st) = takeWhile (readable raw) (html_names raw)
          \<and> res = (case dropWhile (readable raw) (html_names raw) of
                     [] \<Rightarrow> None | f # _ \<Rightarrow> Some (read_error raw f))
          \<and> sorted (reads (trace st))
          \<and> list_all (\<lambda>f. endswith f ''.html'') (reads (trace st))))
   \<and> (present k \<longrightarrow>
        analyze_main present pdir now =
          Some (case dropWhile (loadable pdir) (json_names pdir) of
                  [] \<Rightarrow> analyze_docs (loaded_docs pdir) now
                | f # _ \<Rightarrow> Inl (load_error pdir f)))
   \<and> analyze pdir now =
        (case dropWhile (loadable pdir) (json_names pdir) of
           [] \<Rightarrow> analyze_docs (loaded_docs pdir) now
         | f # _ \<Rightarrow> Inl (load_error pdir f))
   \<and> map fst (loaded_docs pdir) = json_names pdir
   \<and> sorted (json_names pdir)
   \<and> list_all (\<lambda>f. endswith f ''.json'') (json_names pdir)
   \<and> (load_docs pdir (sort (listdir pdir)) [] = Inr docs \<longrightarrow>
         docs = loaded_docs pdir
       \<and> map fst docs = json_names pdir
       \<and> sorted (map fst docs)
       \<and> list_all (\<lambda>f. endswith f ''.json'') (map fst docs))"
proof (intro conjI impI)
  show "process_main present raw clock pdir0
      = process_main present (only_named ''.html'' raw) clock pdir0"
    by (simp add: process_main_only_named)
next
  show "analyze_main present pdir now = analyze_main present (only_named ''.json'' pdir) now"
    by (simp only: analyze_main_def analyze_only_named)
next
  assume "present k"
  from process_main_closed [of present k raw clock pdir0, OF this]
  obtain res st n where run: "process_main present raw clock pdir0 = Some (res, st)"
    and tr: "trace st = replicate n Waiting
           @ concat (map (doc_events raw clock)
               (enumerate 0 (takeWhile (readable raw) (html_names raw))))
           @ (if res = None then [WriteMarker] else [])"
    and res: "res = (case dropWhile (readable raw) (html_names raw) of
                [] \<Rightarrow> None | f # _ \<Rightarrow> Some (read_error raw f))"
    by blast
  have rd: "reads (trace st) = takeWhile (readable raw) (html_names raw)"
    by (cases "res = None")
       (simp_all add: tr reads_append reads_doc_events reads_Waiting map_snd_enumerate)
  have "sorted (html_names raw)"
    unfolding html_names_def by (rule sorted_wrt_filter) simp
  then have so: "sorted (reads (trace st))"
    unfolding rd by (rule sorted_wrt_takeWhile)
  have "set (takeWhile (readable raw) (html_names raw)) \<subseteq> set (html_names raw)"
    by (auto dest: set_takeWhileD)
  then have la: "list_all (\<lambda>f. endswith f ''.html'') (reads (trace st))"
    unfolding rd by (auto simp: list_all_iff html_names_def)
  from run rd res so la
  show "\<exists>res st. process_main present raw clock pdir0 = Some (res, st)
          \<and> reads (trace st) = takeWhile (readable raw) (html_names raw)
          \<and> res = (case dropWhile (readable raw) (html_names raw) of
                     [] \<Rightarrow> None | f # _ \<Rightarrow> Some (read_error raw f))
          \<and> sorted (reads (trace st))
          \<and> list_all (\<lambda>f. endswith f ''.html'') (reads (trace st))"
    by blast
next
  assume "present k"
  then obtain j where "wait_for present 0 = Some j"
    using wait_for_returns [of present k 0] by auto
  then show "analyze_main present pdir now =
       Some (case dropWhile (loadable pdir) (json_names pdir) of
               [] \<Rightarrow> analyze_docs (loaded_docs pdir) now
             | f # _ \<Rightarrow> Inl (load_error pdir f))"
    by (simp only: analyze_main_def analyze_closed option.case)
next
  show "analyze pdir now =
        (case dropWhile (loadable pdir) (json_names pdir) of
           [] \<Rightarrow> analyze_docs (loaded_docs pdir) now
         | f # _ \<Rightarrow> Inl (load_error pdir f))"
    by (rule analyze_closed)
next
  show "map fst (loaded_docs pdir) = json_names pdir"
    by (simp add: loaded_docs_def comp_def)
next
  show "sorted (json_names pdir)"
    unfolding json_names_def by (rule sorted_wrt_filter) simp
next
  show "list_all (\<lambda>f. endswith f ''.json'') (json_names pdir)"
    by (simp add: list_all_iff json_names_def)
next
  assume l: "load_docs pdir (sort (listdir pdir)) [] = Inr docs"
  from load_docs_names [OF l] show n: "map fst docs = json_names pdir"
    by (simp add: json_names_def)
  show "sorted (map fst docs)"
    unfolding n json_names_def by (rule sorted_wrt_filter) simp
  show "list_all (\<lambda>f. endswith f ''.json'') (map fst docs)"
    unfolding n by (simp add: list_all_iff json_names_def)
  from l show "docs = loaded_docs pdir"
    unfolding load_docs_closed loaded_docs_def json_names_def
    by (cases "dropWhile (loadable pdir) (filter (\<lambda>f. endswith f ''.json'') (sort (listdir pdir)))")
       simp_all
qed

theorem only_matching_entries_in_sorted_order_witness:
  "process_main (\<lambda>k. 1 \<le> k) sample_raw sample_clock [] = Some (None, sample_state)
   \<and> reads (trace sample_state) = [''a.html'', ''b.html'']
   \<and> reads (trace sample_state) = takeWhile (readable sample_raw) (html_names sample_raw)
   \<and> sorted (reads (trace sample_state))
   \<and> list_all (\<lambda>f. endswith f ''.html'') (reads (trace sample_state))
   \<and> json_names failing_store = [''a.json'', ''b.json'']
   \<and> dropWhile (loadable failing_store) (json_names failing_store) = [''a.json'', ''b.json'']
   \<and> analyze failing_store ''t'' = Inl (OSError ''a.json'')
   \<and> analyze_main (\<lambda>k. 1 \<le> k) failing_store ''t'' = Some (Inl (OSError ''a.json''))
   \<and> load_docs sample_store (sort (listdir sample_store)) [] = Inr sample_docs
   \<and> sample_docs = loaded_docs sample_store
   \<and> map fst sample_docs = json_names sample_store
   \<and> sorted (map fst sample_docs)
   \<and> list_all (\<lambda>f. endswith f ''.json'') (map fst sample_docs)"
proof -
  have one: "(1::nat) \<le> 1" by simp
  have r: "reads (trace sample_state) = [''a.html'', ''b.html'']"
    by (simp add: sample_state_def)
  have j: "json_names failing_store = [''a.json'', ''b.json'']"
    unfolding failing_store_def by code_simp
  have d: "dropWhile (loadable failing_store) (json_names failing_store) = [''a.json'', ''b.json'']"
    unfolding failing_store_def by code_simp
  have e: "load_error failing_store ''a.json'' = OSError ''a.json''"
    unfolding failing_store_def by code_simp
  note th = only_matching_entries_in_sorted_order
      [of "\<lambda>k. 1 \<le> k" sample_raw sample_clock "[]" sample_store "''t''" 1 sample_docs]
  note tf = only_matching_entries_in_sorted_order
      [of "\<lambda>k. 1 \<le> k" sample_raw sample_clock "[]" failing_store "''t''" 1 sample_docs]
  from th [THEN conjunct2, THEN conjunct2, THEN conjunct1, THEN mp, OF one]
  obtain res st where run: "process_main (\<lambda>k. 1 \<le> k) sample_raw sample_clock [] = Some (res, st)"
    and rd: "reads (trace st) = takeWhile (readable sample_raw) (html_names sample_raw)"
    and so: "sorted (reads (trace st))"
    and la: "list_all (\<lambda>f. endswith f ''.html'') (reads (trace st))"
    by blast
  from run sample_run have eq: "st = sample_state" by simp
  note am = tf [THEN conjunct2, THEN conjunct2, THEN conjunct2, THEN conjunct1, THEN mp, OF one]
  note an = tf [THEN conjunct2, THEN conjunct2, THEN conjunct2, THEN conjunct2, THEN conjunct1]
  have an': "analyze failing_store ''t'' = Inl (OSError ''a.json'')"
    using an by (simp only: d list.case e)
  have am': "analyze_main (\<lambda>k. 1 \<le> k) failing_store ''t'' = Some (Inl (OSError ''a.json''))"
    using am by (simp only: d list.case e)
  note a = th [THEN conjunct2, THEN conjunct2, THEN conjunct2, THEN conjunct2, THEN conjunct2,
      THEN conjunct2, THEN conjunct2, THEN conjunct2, THEN mp, OF sample_store_docs]
  from sample_run r rd [unfolded eq] so [unfolded eq] la [unfolded eq] j d an' am'
    sample_store_docs a [THEN conjunct1] a [THEN conjunct2, THEN conjunct1]
    a [THEN conjunct2, THEN conjunct2, THEN conjunct1] a [THEN conjunct2, THEN conjunct2, THEN conjunct2]
  show ?thesis by (intro conjI)
qed

end
